theory Spec2Isabelle
  imports Main
begin

section \<open>Values and JavaScript objects\<close>

text \<open>
  The transform \<open>shortenKeys\<close> of \<open>server.js\<close> walks a value that came out of a JSON or
  XML parser: \<open>null\<close>, a primitive (string, number, boolean), an array, or a plain object.
  The function never looks inside a primitive, so the primitives are a type parameter.

  A plain object is the list of its own enumerable string-keyed properties in the order
  \<open>Object.entries\<close> lists them. Strings are lists of code units; the model covers the
  code units below 256 (\<open>char\<close>), on which \<open>toLowerCase\<close> stays inside the type.
\<close>

datatype 'a val =
    Null
  | Scalar 'a
  | Sequence "'a val list"
  | Record "(string \<times> 'a val) list"

type_synonym 'v jsobject = "(string \<times> 'v) list"

definition Object_keys :: "'v jsobject \<Rightarrow> string list" where
  "Object_keys obj = map fst obj"

definition Object_values :: "'v jsobject \<Rightarrow> 'v list" where
  "Object_values obj = map snd obj"

subsection \<open>Numbers as strings, array indices\<close>

definition digitChar :: "nat \<Rightarrow> char" where
  "digitChar d = ''0123456789'' ! d"

text \<open>\<open>String(n)\<close> for a counter \<open>n\<close>: its decimal digits, most significant first.\<close>

fun decimal :: "nat \<Rightarrow> string" where
  "decimal n = (if n < 10 then [digitChar n] else decimal (n div 10) @ [digitChar (n mod 10)])"

declare decimal.simps [simp del]

definition isDigit :: "char \<Rightarrow> bool" where
  "isDigit c = (c \<in> set ''0123456789'')"

definition digitValue :: "char \<Rightarrow> int" where
  "digitValue c = of_char c - 48"

definition parseDigits :: "string \<Rightarrow> int" where
  "parseDigits s = foldl (\<lambda>n c. 10 * n + digitValue c) 0 s"

text \<open>
  A property key is an array index when it is the canonical decimal form (digits only,
  no leading zero) of an integer below \<open>2^32 - 1\<close>. Such keys are listed first, in
  ascending numeric order, whatever the order they were created in; all other keys
  follow in creation order.
\<close>

definition arrayIndex :: "string \<Rightarrow> int option" where
  "arrayIndex s =
     (if s \<noteq> [] \<and> list_all isDigit s \<and> (s = ''0'' \<or> hd s \<noteq> CHR ''0'')
         \<and> length s \<le> 10 \<and> parseDigits s < 4294967295
      then Some (parseDigits s) else None)"

fun insertIndexed :: "int \<Rightarrow> string \<Rightarrow> 'v \<Rightarrow> 'v jsobject \<Rightarrow> 'v jsobject" where
  "insertIndexed n k v [] = [(k, v)]"
| "insertIndexed n k v ((k', v') # obj) =
     (case arrayIndex k' of
        Some m \<Rightarrow> if m < n then (k', v') # insertIndexed n k v obj
                  else (k, v) # (k', v') # obj
      | None \<Rightarrow> (k, v) # (k', v') # obj)"

text \<open>
  \<open>obj[k] = v\<close> on an object whose own properties are all plain data properties: an
  existing property keeps its place and takes the new value, a new one is created.
\<close>

definition setProp :: "'v jsobject \<Rightarrow> string \<Rightarrow> 'v \<Rightarrow> 'v jsobject" where
  "setProp obj k v =
     (if k \<in> set (Object_keys obj)
      then map (\<lambda>(k', v'). if k' = k then (k', v) else (k', v')) obj
      else case arrayIndex k of
             Some n \<Rightarrow> insertIndexed n k v obj
           | None \<Rightarrow> obj @ [(k, v)])"

text \<open>
  \<open>Object.assign(target, source)\<close> sets every own property of the source on the target,
  in the source's order. An object literal is evaluated the same way from the empty
  object, so a key written twice keeps its first place and its last value.
\<close>

definition Object_assign :: "'v jsobject \<Rightarrow> 'v jsobject \<Rightarrow> 'v jsobject" where
  "Object_assign target source = foldl (\<lambda>obj (k, v). setProp obj k v) target source"

definition objectLiteral :: "(string \<times> 'v) list \<Rightarrow> 'v jsobject" where
  "objectLiteral props = Object_assign [] props"

subsection \<open>Reading the key map\<close>

text \<open>
  The key map is created as \<open>{}\<close>, so \<open>keyMap[key]\<close> finds the members of
  \<open>Object.prototype\<close> when the map has no own property of that name. Those members are
  functions (or, for \<open>__proto__\<close>, the prototype object); all are truthy, and used as a
  property key each is converted to the string listed here (as Node.js prints them).
\<close>

definition nativeFunction :: "string \<Rightarrow> string" where
  "nativeFunction name = ''function '' @ name @ ''() { [native code] }''"

definition Object_prototype :: "string jsobject" where
  "Object_prototype =
     [(''constructor'', nativeFunction ''Object''),
      (''__defineGetter__'', nativeFunction ''__defineGetter__''),
      (''__defineSetter__'', nativeFunction ''__defineSetter__''),
      (''hasOwnProperty'', nativeFunction ''hasOwnProperty''),
      (''__lookupGetter__'', nativeFunction ''__lookupGetter__''),
      (''__lookupSetter__'', nativeFunction ''__lookupSetter__''),
      (''isPrototypeOf'', nativeFunction ''isPrototypeOf''),
      (''propertyIsEnumerable'', nativeFunction ''propertyIsEnumerable''),
      (''toString'', nativeFunction ''toString''),
      (''valueOf'', nativeFunction ''valueOf''),
      (''__proto__'', ''[object Object]''),
      (''toLocaleString'', nativeFunction ''toLocaleString'')]"

text \<open>\<open>keyMap[key]\<close>: \<open>None\<close> is \<open>undefined\<close>.\<close>

definition getProp :: "string jsobject \<Rightarrow> string \<Rightarrow> string option" where
  "getProp keyMap key =
     (case map_of keyMap key of
        Some v \<Rightarrow> Some v
      | None \<Rightarrow> map_of Object_prototype key)"

text \<open>\<open>!x\<close> for what \<open>keyMap[key]\<close> returns: \<open>undefined\<close> and the empty string are falsy.\<close>

fun falsy :: "string option \<Rightarrow> bool" where
  "falsy None = True"
| "falsy (Some v) = (v = [])"

text \<open>The value of \<open>keyMap[key]\<close> as the property key of \<open>result[keyMap[key]]\<close>.\<close>

fun propertyKey :: "string option \<Rightarrow> string" where
  "propertyKey None = ''undefined''"
| "propertyKey (Some v) = v"

text \<open>
  \<open>result[alias] = v\<close> on the object \<open>result\<close> of line 105, which inherits from
  \<open>Object.prototype\<close>: the name \<open>__proto__\<close> is the inherited accessor, which creates no own
  property. A \<open>'v jsobject\<close> lists the own properties only: called with null or an
  object, the accessor replaces the prototype of \<open>result\<close>, which is not recorded here,
  and an object that has lost the accessor in this way would take a later \<open>__proto__\<close> as
  an own property. No key map the walk builds from the predefined mappings holds the
  alias \<open>__proto__\<close>; only a key map passed in by the caller can.
\<close>

definition resultSet :: "'v jsobject \<Rightarrow> string \<Rightarrow> 'v \<Rightarrow> 'v jsobject" where
  "resultSet result alias v = (if alias = ''__proto__'' then result else setProp result alias v)"

section \<open>The predefined key mappings\<close>

text \<open>The object literal of \<open>COMMON_KEY_MAPPINGS\<close>, property by property as written.\<close>

definition COMMON_KEY_MAPPINGS :: "string jsobject" where
  "COMMON_KEY_MAPPINGS = objectLiteral
     [(''LicenseValidator'', ''lv''),
      (''LicenseType'', ''lt''),
      (''CopilotUnlimited'', ''cu''),
      (''ModelName'', ''mn''),
      (''SubTag'', ''st''),
      (''LoopCount'', ''lc''),
      (''RaiPolicyId'', ''rpi''),
      (''llmLicenseType'', ''llt''),
      (''feature'', ''ft''),
      (''role'', ''r''),
      (''content'', ''c''),
      (''system'', ''sys''),
      (''user'', ''u''),
      (''assistant'', ''a''),
      (''developer'', ''dev''),
      (''tool_calls'', ''tc''),
      (''function'', ''fn''),
      (''arguments'', ''arg''),
      (''name'', ''n''),
      (''type'', ''t''),
      (''reference_id'', ''rid''),
      (''snippet'', ''snp''),
      (''subject'', ''sbj''),
      (''from'', ''f''),
      (''to'', ''t''),
      (''participants'', ''p''),
      (''Name'', ''n''),
      (''Address'', ''a''),
      (''Email'', ''e''),
      (''subject'', ''s''),
      (''message'', ''m''),
      (''timestamp'', ''ts''),
      (''dateTimeReceived'', ''dtr''),
      (''dateTimeSent'', ''dts''),
      (''isRead'', ''rd'')]"

section \<open>shortenKeys\<close>

subsection \<open>Deriving a short key\<close>

definition removeVowels :: "string \<Rightarrow> string" where
  "removeVowels key = filter (\<lambda>c. c \<notin> set ''aeiouAEIOU'') key"

definition lowerChar :: "char \<Rightarrow> char" where
  "lowerChar c =
     (let n = (of_char c :: nat)
      in if (65 \<le> n \<and> n \<le> 90) \<or> (192 \<le> n \<and> n \<le> 222 \<and> n \<noteq> 215)
         then char_of (n + 32) else c)"

definition toLowerCase :: "string \<Rightarrow> string" where
  "toLowerCase s = map lowerChar s"

text \<open>
  \<open>key.replace(/[aeiou]/gi, '').substring(0, 3).toLowerCase()\<close>, and the first two
  letters of the key when that is empty.
\<close>

definition deriveShort :: "string \<Rightarrow> string" where
  "deriveShort key =
     (let short = toLowerCase (take 3 (removeVowels key))
      in if short = [] then toLowerCase (take 2 key) else short)"

subsection \<open>Handling collisions\<close>

text \<open>
  The decimal form of a number determines the number, so the trial aliases
  \<open>short + 1\<close>, \<open>short + 2\<close>, ... are pairwise different.
\<close>

lemma digitChar_inj: "a < 10 \<Longrightarrow> b < 10 \<Longrightarrow> digitChar a = digitChar b \<Longrightarrow> a = b"
proof -
  assume a: "a < 10" and b: "b < 10" and e: "digitChar a = digitChar b"
  have d: "distinct ''0123456789''" by simp
  have l: "length ''0123456789'' = 10" by simp
  from d l a b e show "a = b"
    unfolding digitChar_def by (metis nth_eq_iff_index_eq)
qed

lemma decimal_nonempty: "decimal n \<noteq> []"
  by (subst decimal.simps) simp

lemma decimal_inj: "decimal m = decimal n \<Longrightarrow> m = n"
proof (induction m arbitrary: n rule: decimal.induct)
  case (1 m)
  show ?case
  proof (cases "m < 10")
    case True
    then have dm: "decimal m = [digitChar m]" by (subst decimal.simps) simp
    show ?thesis
    proof (cases "n < 10")
      case True
      then have "decimal n = [digitChar n]" by (subst decimal.simps) simp
      with dm "1.prems" have "digitChar m = digitChar n" by simp
      with \<open>m < 10\<close> \<open>n < 10\<close> show ?thesis by (rule digitChar_inj)
    next
      case False
      then have "decimal n = decimal (n div 10) @ [digitChar (n mod 10)]"
        by (subst decimal.simps) simp
      with dm "1.prems" have "decimal (n div 10) = []" by simp
      with decimal_nonempty show ?thesis by blast
    qed
  next
    case False
    then have dm: "decimal m = decimal (m div 10) @ [digitChar (m mod 10)]"
      by (subst decimal.simps) simp
    show ?thesis
    proof (cases "n < 10")
      case True
      then have "decimal n = [digitChar n]" by (subst decimal.simps) simp
      with dm "1.prems" have "decimal (m div 10) = []" by simp
      with decimal_nonempty show ?thesis by blast
    next
      case nf: False
      then have "decimal n = decimal (n div 10) @ [digitChar (n mod 10)]"
        by (subst decimal.simps) simp
      with dm "1.prems" have e1: "decimal (m div 10) = decimal (n div 10)"
        and e2: "digitChar (m mod 10) = digitChar (n mod 10)" by simp_all
      from "1.IH" [OF False e1] have q: "m div 10 = n div 10" .
      have "m mod 10 = n mod 10" using e2 by (intro digitChar_inj) simp_all
      with q show ?thesis by (metis div_mult_mod_eq)
    qed
  qed
qed

text \<open>
  The loop
  \<^verbatim>\<open>while (Object.values(keyMap).includes(candidate)) { candidate = short + counter; counter++; }\<close>
  with \<open>vals\<close> the values of the key map, which the loop does not change. It ends
  because each round that finds its candidate taken uses up one of the finitely many
  values of the form \<open>short + n\<close>.
\<close>

function resolveCollision :: "string list \<Rightarrow> string \<Rightarrow> string \<Rightarrow> nat \<Rightarrow> string" where
  "resolveCollision vals short candidate counter =
     (if candidate \<in> set vals
      then resolveCollision vals short (short @ decimal counter) (counter + 1)
      else candidate)"
  by pat_completeness auto

definition pending :: "string list \<Rightarrow> string \<Rightarrow> nat \<Rightarrow> nat set" where
  "pending vals short counter = {n. counter \<le> n \<and> short @ decimal n \<in> set vals}"

lemma pending_finite: "finite (pending vals short counter)"
proof -
  have "inj (\<lambda>n. short @ decimal n)" by (auto simp: inj_def dest: decimal_inj)
  then have "finite ((\<lambda>n. short @ decimal n) -` set vals)" by (intro finite_vimageI) simp_all
  moreover have "pending vals short counter \<subseteq> (\<lambda>n. short @ decimal n) -` set vals"
    by (auto simp: pending_def)
  ultimately show ?thesis by (rule rev_finite_subset)
qed

lemma pending_step:
  "card (pending vals short (counter + 1)) + (if short @ decimal counter \<in> set vals then 1 else 0)
     = card (pending vals short counter)"
proof (cases "short @ decimal counter \<in> set vals")
  case True
  have "pending vals short counter = insert counter (pending vals short (counter + 1))"
    using True by (auto simp: pending_def)
  moreover have "counter \<notin> pending vals short (counter + 1)" by (simp add: pending_def)
  ultimately show ?thesis using True pending_finite by simp
next
  case False
  have "pending vals short counter = pending vals short (counter + 1)"
    using False by (auto simp: pending_def) (metis Suc_leI le_neq_implies_less)
  with False show ?thesis by simp
qed

definition resolveMeasure :: "string list \<times> string \<times> string \<times> nat \<Rightarrow> nat" where
  "resolveMeasure = (\<lambda>(vals, short, candidate, counter).
     card (pending vals short counter) + (if candidate \<in> set vals then 1 else 0))"

lemma resolveCollision_terminates: "All resolveCollision_dom"
proof (relation "measure resolveMeasure")
  show "wf (measure resolveMeasure)" by simp
next
  fix vals :: "string list" and short candidate :: string and counter :: nat
  assume "candidate \<in> set vals"
  then show "((vals, short, short @ decimal counter, counter + 1), (vals, short, candidate, counter))
      \<in> measure resolveMeasure"
    using pending_step [of vals short counter] by (simp add: resolveMeasure_def)
qed

termination resolveCollision
  by (rule resolveCollision_terminates)

declare resolveCollision.simps [simp del]

subsection \<open>The walk\<close>

text \<open>
  Lines 108 to 126, the body of \<open>if (!keyMap[key])\<close>: derive the short key, resolve
  collisions against the values the key map holds now, and store the winner.
\<close>

definition assignKey :: "string jsobject \<Rightarrow> string \<Rightarrow> string jsobject" where
  "assignKey keyMap key =
     (if falsy (getProp keyMap key)
      then let short = deriveShort key;
               candidate = resolveCollision (Object_values keyMap) short short 1
           in setProp keyMap key candidate
      else keyMap)"

text \<open>Lines 97 to 99: an empty key map is filled with the predefined mappings.\<close>

definition initKeyMap :: "string jsobject \<Rightarrow> string jsobject" where
  "initKeyMap keyMap =
     (if length (Object_keys keyMap) = 0 then Object_assign keyMap COMMON_KEY_MAPPINGS
      else keyMap)"

text \<open>
  \<open>shortenKeys(obj, keyMap)\<close>. The key map is one mutable object shared by all recursive
  calls, so the model passes it in and returns it. \<open>shortenItems\<close> is
  \<open>obj.map(item => shortenKeys(item, keyMap))\<close>, \<open>shortenEntries\<close> is the \<open>for\<close> loop over
  \<open>Object.entries(obj)\<close> with the \<open>result\<close> object built so far. In
  \<open>result[keyMap[key]] = shortenKeys(value, keyMap)\<close> the property key is read before
  the right-hand side is evaluated. These equations are the walk on a call stack that
  never fills up; \<open>shortenKeysWithin\<close> below is the same walk on a stack of limited size.
\<close>

function shortenKeys :: "'a val \<Rightarrow> string jsobject \<Rightarrow> 'a val \<times> string jsobject"
and shortenItems :: "'a val list \<Rightarrow> string jsobject \<Rightarrow> 'a val list \<times> string jsobject"
and shortenEntries ::
  "(string \<times> 'a val) list \<Rightarrow> 'a val jsobject \<Rightarrow> string jsobject
     \<Rightarrow> 'a val jsobject \<times> string jsobject"
where
  "shortenKeys (Sequence items) keyMap =
     (case shortenItems items (initKeyMap keyMap) of
        (items', keyMap') \<Rightarrow> (Sequence items', keyMap'))"
| "shortenKeys (Record entries) keyMap =
     (case shortenEntries entries [] (initKeyMap keyMap) of
        (result, keyMap') \<Rightarrow> (Record result, keyMap'))"
| "shortenKeys Null keyMap = (Null, initKeyMap keyMap)"
| "shortenKeys (Scalar x) keyMap = (Scalar x, initKeyMap keyMap)"
| "shortenItems [] keyMap = ([], keyMap)"
| "shortenItems (item # items) keyMap =
     (case shortenKeys item keyMap of
        (item', keyMap1) \<Rightarrow>
          (case shortenItems items keyMap1 of
             (items', keyMap2) \<Rightarrow> (item' # items', keyMap2)))"
| "shortenEntries [] result keyMap = (result, keyMap)"
| "shortenEntries ((key, value) # entries) result keyMap =
     (let keyMap1 = assignKey keyMap key;
          alias = propertyKey (getProp keyMap1 key)
      in case shortenKeys value keyMap1 of
           (value', keyMap2) \<Rightarrow>
             shortenEntries entries (resultSet result alias value') keyMap2)"
  by pat_completeness auto

lemma shortenKeys_terminates: "All shortenKeys_shortenItems_shortenEntries_dom"
  by (relation "measure
      (case_sum (\<lambda>p. size (fst p))
       (case_sum (\<lambda>p. size_list size (fst p))
          (\<lambda>p. size_list (size_prod (\<lambda>k. 0) size) (fst p))))") auto

termination shortenKeys
  by (rule shortenKeys_terminates)


subsection \<open>The walk without the initialisation\<close>

text \<open>
  The specification's \<open>shorten(value, table)\<close>: the same walk over a table that is taken
  as given, with no predefined mappings loaded. It is what \<open>shortenKeys\<close> is compared
  with.
\<close>

function shorten :: "'a val \<Rightarrow> string jsobject \<Rightarrow> 'a val \<times> string jsobject"
and shortenSequence :: "'a val list \<Rightarrow> string jsobject \<Rightarrow> 'a val list \<times> string jsobject"
and shortenRecord ::
  "(string \<times> 'a val) list \<Rightarrow> 'a val jsobject \<Rightarrow> string jsobject
     \<Rightarrow> 'a val jsobject \<times> string jsobject"
where
  "shorten (Sequence items) table =
     (case shortenSequence items table of
        (items', table') \<Rightarrow> (Sequence items', table'))"
| "shorten (Record entries) table =
     (case shortenRecord entries [] table of
        (result, table') \<Rightarrow> (Record result, table'))"
| "shorten Null table = (Null, table)"
| "shorten (Scalar x) table = (Scalar x, table)"
| "shortenSequence [] table = ([], table)"
| "shortenSequence (item # items) table =
     (case shorten item table of
        (item', table1) \<Rightarrow>
          (case shortenSequence items table1 of
             (items', table2) \<Rightarrow> (item' # items', table2)))"
| "shortenRecord [] result table = (result, table)"
| "shortenRecord ((key, value) # entries) result table =
     (let table1 = assignKey table key;
          alias = propertyKey (getProp table1 key)
      in case shorten value table1 of
           (value', table2) \<Rightarrow>
             shortenRecord entries (resultSet result alias value') table2)"
  by pat_completeness auto

termination shorten
  by (relation "measure
      (case_sum (\<lambda>p. size (fst p))
       (case_sum (\<lambda>p. size_list size (fst p))
          (\<lambda>p. size_list (size_prod (\<lambda>k. 0) size) (fst p))))") auto


subsection \<open>The keys the walk rewrites\<close>

text \<open>
  A record of what line 127 does, in the order the walk does it: for each entry it
  visits, the original key, whether the \<open>if (!keyMap[key])\<close> branch was taken for it, and
  the property key it is written under. The key map reaches each step exactly as
  \<open>shortenKeys\<close> threads it.
\<close>

function keyUses :: "'a val \<Rightarrow> string jsobject \<Rightarrow> (string \<times> bool \<times> string) list"
and keyUsesItems :: "'a val list \<Rightarrow> string jsobject \<Rightarrow> (string \<times> bool \<times> string) list"
and keyUsesEntries ::
  "(string \<times> 'a val) list \<Rightarrow> string jsobject \<Rightarrow> (string \<times> bool \<times> string) list"
where
  "keyUses (Sequence items) keyMap = keyUsesItems items (initKeyMap keyMap)"
| "keyUses (Record entries) keyMap = keyUsesEntries entries (initKeyMap keyMap)"
| "keyUses Null keyMap = []"
| "keyUses (Scalar x) keyMap = []"
| "keyUsesItems [] keyMap = []"
| "keyUsesItems (item # items) keyMap =
     keyUses item keyMap @ keyUsesItems items (snd (shortenKeys item keyMap))"
| "keyUsesEntries [] keyMap = []"
| "keyUsesEntries ((key, value) # entries) keyMap =
     (let keyMap1 = assignKey keyMap key
      in (key, falsy (getProp keyMap key), propertyKey (getProp keyMap1 key))
           # keyUses value keyMap1
           @ keyUsesEntries entries (snd (shortenKeys value keyMap1)))"
  by pat_completeness auto

termination keyUses
  by (relation "measure
      (case_sum (\<lambda>p. size (fst p))
       (case_sum (\<lambda>p. size_list size (fst p))
          (\<lambda>p. size_list (size_prod (\<lambda>k. 0) size) (fst p))))") auto


subsection \<open>The walk on a call stack of limited size\<close>








subsection \<open>An output written under a given alias\<close>

text \<open>
  \<open>writtenUnder key short v v'\<close> relates an input value \<open>v\<close> to an output value \<open>v'\<close> of the
  same shape in which the key \<open>key\<close> appears only as \<open>short\<close>: null and scalars are
  unchanged, arrays correspond item by item, and for an object every property of the
  output holds the output of some entry of the input, under the name \<open>short\<close> if that
  entry's key is \<open>key\<close>; and when the input object has an entry with the key \<open>key\<close>, the
  output object has a property named \<open>short\<close>. Which entry a property holds when two
  entries are written under one name is left open.
\<close>

inductive writtenUnder :: "string \<Rightarrow> string \<Rightarrow> 'a val \<Rightarrow> 'a val \<Rightarrow> bool"
  for key :: string and short :: string
where
  ofNull: "writtenUnder key short Null Null"
| ofScalar: "writtenUnder key short (Scalar x) (Scalar x)"
| ofSequence: "list_all2 (writtenUnder key short) items items' \<Longrightarrow>
     writtenUnder key short (Sequence items) (Sequence items')"
| ofRecord: "\<forall>out \<in> set result. \<exists>inp \<in> set entries.
        (fst inp = key \<longrightarrow> fst out = short) \<and> writtenUnder key short (snd inp) (snd out) \<Longrightarrow>
     (key \<in> fst ` set entries \<longrightarrow> short \<in> fst ` set result) \<Longrightarrow>
     writtenUnder key short (Record entries) (Record result)"

code_pred writtenUnder .


section \<open>Facts about objects\<close>

text \<open>What \<open>obj[k] = v\<close> does to the lookups, the keys and the values of an object.\<close>

lemma Object_keys_set: "set (Object_keys obj) = fst ` set obj"
  by (simp add: Object_keys_def)

lemma Object_values_set: "set (Object_values obj) = snd ` set obj"
  by (simp add: Object_values_def)

lemma insertIndexed_set: "set (insertIndexed n k v obj) = insert (k, v) (set obj)"
proof (induction obj)
  case Nil
  then show ?case by simp
next
  case (Cons p obj)
  obtain k' v' where p: "p = (k', v')" by (cases p)
  show ?case
  proof (cases "arrayIndex k'")
    case None
    then show ?thesis by (simp add: p)
  next
    case (Some m)
    with Cons.IH show ?thesis by (cases "m < n") (auto simp: p)
  qed
qed

lemma insertIndexed_keys:
  "set (Object_keys (insertIndexed n k v obj)) = insert k (set (Object_keys obj))"
  by (simp add: Object_keys_set insertIndexed_set)

lemma insertIndexed_lookup:
  "k \<notin> fst ` set obj \<Longrightarrow>
   map_of (insertIndexed n k v obj) x = (if x = k then Some v else map_of obj x)"
proof (induction obj arbitrary: x)
  case Nil
  then show ?case by simp
next
  case (Cons p obj)
  obtain k' v' where p: "p = (k', v')" by (cases p)
  from Cons.prems p have a: "k \<noteq> k'" "k \<notin> fst ` set obj" by auto
  show ?case
  proof (cases "arrayIndex k'")
    case None
    then show ?thesis using a by (simp add: p)
  next
    case (Some m)
    then show ?thesis using a Cons.IH [OF a(2)] by (cases "m < n") (simp_all add: p)
  qed
qed

lemma insertIndexed_distinct:
  "k \<notin> fst ` set obj \<Longrightarrow> distinct (map fst obj)
     \<Longrightarrow> distinct (map fst (insertIndexed n k v obj))"
proof (induction obj)
  case Nil
  then show ?case by simp
next
  case (Cons p obj)
  obtain k' v' where p: "p = (k', v')" by (cases p)
  from Cons.prems p have a: "k \<noteq> k'" "k \<notin> fst ` set obj"
    "k' \<notin> fst ` set obj" "distinct (map fst obj)" by auto
  from Cons.IH a have ih: "distinct (map fst (insertIndexed n k v obj))" by simp
  have "k' \<notin> fst ` set (insertIndexed n k v obj)"
    using a by (simp add: insertIndexed_set)
  with a ih show ?case by (simp add: p split: option.splits)
qed

definition replaceValue :: "string \<Rightarrow> 'v \<Rightarrow> string \<times> 'v \<Rightarrow> string \<times> 'v" where
  "replaceValue k v = (\<lambda>(k', v'). if k' = k then (k', v) else (k', v'))"

lemma replaceValue_pair:
  "replaceValue k v (k', v') = (if k' = k then (k', v) else (k', v'))"
  by (simp add: replaceValue_def)

lemma replaceValue_fst: "fst (replaceValue k v p) = fst p"
  by (cases p) (simp add: replaceValue_def)

lemma replaceValue_keys: "map fst (map (replaceValue k v) obj) = map fst obj"
  by (induction obj) (simp_all add: replaceValue_fst)

lemma replaceValue_lookup:
  "map_of (map (replaceValue k v) obj) x
     = (if x = k then (if k \<in> fst ` set obj then Some v else None) else map_of obj x)"
proof (induction obj arbitrary: x)
  case Nil
  then show ?case by simp
next
  case (Cons p obj)
  obtain k' v' where p: "p = (k', v')" by (cases p)
  show ?case by (cases "k' = k") (simp_all add: p replaceValue_pair Cons.IH)
qed

lemma replaceValue_snd: "snd (replaceValue k v p) = (if fst p = k then v else snd p)"
  by (cases p) (simp add: replaceValue_def)

lemma replaceValue_values:
  "snd ` set (map (replaceValue k v) obj) \<subseteq> insert v (snd ` set obj)"
proof
  fix a assume "a \<in> snd ` set (map (replaceValue k v) obj)"
  then obtain p where p: "p \<in> set obj" "a = snd (replaceValue k v p)" by auto
  then show "a \<in> insert v (snd ` set obj)" by (simp add: replaceValue_snd)
qed

lemma setProp_cases:
  "setProp obj k v =
     (if k \<in> fst ` set obj then map (replaceValue k v) obj
      else case arrayIndex k of Some n \<Rightarrow> insertIndexed n k v obj | None \<Rightarrow> obj @ [(k, v)])"
  by (simp add: setProp_def replaceValue_def Object_keys_set)

lemma setProp_lookup: "map_of (setProp obj k v) x = (if x = k then Some v else map_of obj x)"
proof (cases "k \<in> fst ` set obj")
  case True
  then show ?thesis by (simp add: setProp_cases replaceValue_lookup)
next
  case False
  then have "map_of obj k = None" by (simp add: map_of_eq_None_iff)
  with False show ?thesis
    by (auto simp: setProp_cases insertIndexed_lookup map_add_def split: option.splits)
qed

lemma setProp_map_of: "map_of (setProp obj k v) = (map_of obj)(k \<mapsto> v)"
  by (rule ext) (simp add: setProp_lookup)

lemma setProp_keys: "set (Object_keys (setProp obj k v)) = insert k (set (Object_keys obj))"
proof (cases "k \<in> fst ` set obj")
  case True
  have "set (map fst (map (replaceValue k v) obj)) = set (map fst obj)"
    by (simp only: replaceValue_keys)
  with True show ?thesis by (auto simp: setProp_cases Object_keys_def)
next
  case False
  then show ?thesis
    by (auto simp: setProp_cases Object_keys_set insertIndexed_set split: option.splits)
qed

lemma setProp_distinct:
  "distinct (Object_keys obj) \<Longrightarrow> distinct (Object_keys (setProp obj k v))"
proof (cases "k \<in> fst ` set obj")
  case True
  assume "distinct (Object_keys obj)"
  then have "distinct (map fst (map (replaceValue k v) obj))"
    by (simp only: replaceValue_keys Object_keys_def)
  with True show ?thesis by (simp add: setProp_cases Object_keys_def)
next
  case False
  assume "distinct (Object_keys obj)"
  with False show ?thesis
    using insertIndexed_distinct [of k obj _ v]
    by (auto simp: setProp_cases Object_keys_def split: option.splits)
qed

lemma setProp_values:
  "set (Object_values (setProp obj k v)) \<subseteq> insert v (set (Object_values obj))"
proof (cases "k \<in> fst ` set obj")
  case True
  then show ?thesis using replaceValue_values [of k v obj]
    by (simp add: setProp_cases Object_values_set)
next
  case False
  then show ?thesis
    by (auto simp: setProp_cases Object_values_set insertIndexed_set split: option.splits)
qed

lemma setProp_nonempty: "setProp obj k v \<noteq> []"
proof -
  have "k \<in> set (Object_keys (setProp obj k v))" by (simp add: setProp_keys)
  then show ?thesis by (auto simp: Object_keys_def)
qed

section \<open>Facts about the initialisation\<close>

text \<open>The predefined mappings as the object the literal evaluates to.\<close>

lemma arrayIndex_nondigit: "\<not> isDigit c \<Longrightarrow> arrayIndex (c # s) = None"
  by (simp add: arrayIndex_def)

lemma COMMON_KEY_MAPPINGS_eval:
  "COMMON_KEY_MAPPINGS =
     [(''LicenseValidator'', ''lv''), (''LicenseType'', ''lt''),
      (''CopilotUnlimited'', ''cu''), (''ModelName'', ''mn''),
      (''SubTag'', ''st''), (''LoopCount'', ''lc''), (''RaiPolicyId'', ''rpi''),
      (''llmLicenseType'', ''llt''), (''feature'', ''ft''), (''role'', ''r''),
      (''content'', ''c''), (''system'', ''sys''), (''user'', ''u''),
      (''assistant'', ''a''), (''developer'', ''dev''),
      (''tool_calls'', ''tc''), (''function'', ''fn''),
      (''arguments'', ''arg''), (''name'', ''n''), (''type'', ''t''),
      (''reference_id'', ''rid''), (''snippet'', ''snp''), (''subject'', ''s''),
      (''from'', ''f''), (''to'', ''t''), (''participants'', ''p''),
      (''Name'', ''n''), (''Address'', ''a''), (''Email'', ''e''),
      (''message'', ''m''), (''timestamp'', ''ts''),
      (''dateTimeReceived'', ''dtr''), (''dateTimeSent'', ''dts''),
      (''isRead'', ''rd'')]"
  by (simp add: COMMON_KEY_MAPPINGS_def objectLiteral_def Object_assign_def setProp_cases
      replaceValue_pair arrayIndex_nondigit isDigit_def)

declare COMMON_KEY_MAPPINGS_eval [code]

text \<open>
  Assigning a source whose keys are pairwise different, are no array indices and are new
  to the target appends the source to the target.
\<close>

lemma Object_assign_fresh:
  "distinct (map fst source) \<Longrightarrow>
   list_all (\<lambda>p. arrayIndex (fst p) = None \<and> fst p \<notin> fst ` set target) source \<Longrightarrow>
   Object_assign target source = target @ source"
proof (induction source arbitrary: target)
  case Nil
  then show ?case by (simp add: Object_assign_def)
next
  case (Cons p source)
  obtain k v where p: "p = (k, v)" by (cases p)
  from Cons.prems p have a: "arrayIndex k = None" "k \<notin> fst ` set target"
    "k \<notin> fst ` set source" "distinct (map fst source)" by auto
  have s: "setProp target k v = target @ [(k, v)]" using a by (simp add: setProp_cases)
  have "list_all (\<lambda>p. arrayIndex (fst p) = None \<and> fst p \<notin> fst ` set (target @ [(k, v)])) source"
    using Cons.prems a p by (auto simp: list_all_iff)
  from Cons.IH [OF a(4) this] have "Object_assign (target @ [(k, v)]) source = target @ [(k, v)] @ source"
    by simp
  then show ?case using s by (simp add: Object_assign_def p)
qed

lemma initKeyMap_empty: "initKeyMap [] = COMMON_KEY_MAPPINGS"
proof -
  have d: "distinct (map fst COMMON_KEY_MAPPINGS)"
    unfolding COMMON_KEY_MAPPINGS_eval by simp
  have n: "list_all (\<lambda>p. arrayIndex (fst p) = None \<and> fst p \<notin> fst ` set ([] :: string jsobject))
      COMMON_KEY_MAPPINGS"
    unfolding COMMON_KEY_MAPPINGS_eval by (simp add: arrayIndex_nondigit isDigit_def)
  from Object_assign_fresh [OF d n] show ?thesis by (simp add: initKeyMap_def Object_keys_def)
qed

lemma initKeyMap_nonempty: "keyMap \<noteq> [] \<Longrightarrow> initKeyMap keyMap = keyMap"
  by (simp add: initKeyMap_def Object_keys_def)

lemma COMMON_KEY_MAPPINGS_nonempty: "COMMON_KEY_MAPPINGS \<noteq> []"
  by (simp add: COMMON_KEY_MAPPINGS_eval)

lemma initKeyMap_result: "initKeyMap keyMap \<noteq> []"
  by (cases "keyMap = []") (simp_all add: initKeyMap_empty initKeyMap_nonempty COMMON_KEY_MAPPINGS_nonempty)

lemma initKeyMap_idem: "initKeyMap (initKeyMap keyMap) = initKeyMap keyMap"
  by (simp add: initKeyMap_nonempty initKeyMap_result)

lemma assignKey_nonempty: "keyMap \<noteq> [] \<Longrightarrow> assignKey keyMap key \<noteq> []"
  by (simp add: assignKey_def Let_def setProp_nonempty)

section \<open>shortenKeys is the walk over the initialised key map\<close>

text \<open>
  The test of line 97 runs in every recursive call, but a key map is never emptied, so
  only the outermost call can find it empty.
\<close>

lemma shorten_nonempty:
  "table \<noteq> [] \<Longrightarrow> snd (shorten (v :: 'a val) table) \<noteq> []"
  "table \<noteq> [] \<Longrightarrow> snd (shortenSequence (items :: 'a val list) table) \<noteq> []"
  "table \<noteq> [] \<Longrightarrow> snd (shortenRecord (entries :: (string \<times> 'a val) list) result table) \<noteq> []"
proof (induction v table and items table and entries result table
    rule: shorten_shortenSequence_shortenRecord.induct)
  case (1 items table)
  then show ?case by (cases "shortenSequence items table") simp
next
  case (2 entries table)
  then show ?case by (cases "shortenRecord entries [] table") simp
next
  case (6 item items table)
  obtain item' table1 where a: "shorten item table = (item', table1)"
    by (cases "shorten item table")
  obtain items' table2 where b: "shortenSequence items table1 = (items', table2)"
    by (cases "shortenSequence items table1")
  from "6.IH"(1) [OF "6.prems"] a have "table1 \<noteq> []" by simp
  with "6.IH"(2) [OF a [symmetric]] b have "table2 \<noteq> []" by simp
  with a b show ?case by simp
next
  case (8 key "value" entries result table)
  define table1 where "table1 = assignKey table key"
  define ali where "ali = propertyKey (getProp table1 key)"
  obtain value' table2 where a: "shorten value table1 = (value', table2)"
    by (cases "shorten value table1")
  have n1: "table1 \<noteq> []" using "8.prems" by (simp add: table1_def assignKey_nonempty)
  from "8.IH"(1) [OF table1_def ali_def n1] a have n2: "table2 \<noteq> []" by simp
  from "8.IH"(2) [OF table1_def ali_def a [symmetric] n2]
  show ?case using a by (simp add: Let_def table1_def [symmetric] ali_def [symmetric])
qed simp_all

lemma shortenKeys_shorten:
  "shortenKeys (v :: 'a val) keyMap = shorten v (initKeyMap keyMap)"
  "keyMap \<noteq> [] \<Longrightarrow> shortenItems (items :: 'a val list) keyMap = shortenSequence items keyMap"
  "keyMap \<noteq> [] \<Longrightarrow> shortenEntries (entries :: (string \<times> 'a val) list) result keyMap
      = shortenRecord entries result keyMap"
proof (induction v keyMap and items keyMap and entries result keyMap
    rule: shortenKeys_shortenItems_shortenEntries.induct)
  case (1 items keyMap)
  then show ?case by (simp add: initKeyMap_result)
next
  case (2 entries keyMap)
  then show ?case by (simp add: initKeyMap_result)
next
  case (6 item items keyMap)
  have a: "shortenKeys item keyMap = shorten item keyMap"
    using "6.IH"(1) "6.prems" by (simp add: initKeyMap_nonempty)
  obtain item' keyMap1 where b: "shorten item keyMap = (item', keyMap1)"
    by (cases "shorten item keyMap")
  have n: "keyMap1 \<noteq> []" using shorten_nonempty(1) [OF "6.prems", of item] b by simp
  have c: "shortenItems items keyMap1 = shortenSequence items keyMap1"
    using "6.IH"(2) [of item' keyMap1] a b n by simp
  show ?case using a b c by simp
next
  case (8 key "value" entries result keyMap)
  define keyMap1 where "keyMap1 = assignKey keyMap key"
  define ali where "ali = propertyKey (getProp keyMap1 key)"
  have n1: "keyMap1 \<noteq> []" using "8.prems" by (simp add: keyMap1_def assignKey_nonempty)
  have a: "shortenKeys value keyMap1 = shorten value keyMap1"
    using "8.IH"(1) [OF keyMap1_def ali_def] n1 by (simp add: initKeyMap_nonempty)
  obtain value' keyMap2 where b: "shorten value keyMap1 = (value', keyMap2)"
    by (cases "shorten value keyMap1")
  have n2: "keyMap2 \<noteq> []" using shorten_nonempty(1) [OF n1, of "value"] b by simp
  have c: "shortenEntries entries (resultSet result ali value') keyMap2
      = shortenRecord entries (resultSet result ali value') keyMap2"
    using "8.IH"(2) [OF keyMap1_def ali_def, of value' keyMap2] a b n2 by simp
  show ?case using a b c
    by (simp add: Let_def keyMap1_def [symmetric] ali_def [symmetric])
qed simp_all

lemma shortenKeys_empty: "shortenKeys v [] = shorten v COMMON_KEY_MAPPINGS"
  by (simp add: shortenKeys_shorten(1) initKeyMap_empty)

lemma shortenKeys_nonempty: "keyMap \<noteq> [] \<Longrightarrow> shortenKeys v keyMap = shorten v keyMap"
  by (simp add: shortenKeys_shorten(1) initKeyMap_nonempty)



section \<open>Keys that already have an alias\<close>

text \<open>
  A key whose own entry in the key map is a non-empty string never enters the
  \<open>if (!keyMap[key])\<close> branch, and no other key's assignment touches its entry.
\<close>

lemma getProp_own: "map_of keyMap k = Some a \<Longrightarrow> getProp keyMap k = Some a"
  by (simp add: getProp_def)

lemma assignKey_same:
  "map_of keyMap k = Some a \<Longrightarrow> a \<noteq> [] \<Longrightarrow> assignKey keyMap k = keyMap"
  by (simp add: assignKey_def getProp_own)

lemma assignKey_keeps:
  "map_of keyMap k = Some a \<Longrightarrow> a \<noteq> [] \<Longrightarrow> map_of (assignKey keyMap key) k = Some a"
proof (cases "key = k")
  case True
  assume "map_of keyMap k = Some a" "a \<noteq> []"
  with True show ?thesis by (simp add: assignKey_same)
next
  case False
  assume "map_of keyMap k = Some a" "a \<noteq> []"
  with False show ?thesis by (simp add: assignKey_def Let_def setProp_lookup)
qed

lemma shorten_keeps:
  "map_of table k = Some a \<Longrightarrow> a \<noteq> [] \<Longrightarrow> map_of (snd (shorten (v :: 'a val) table)) k = Some a"
  "map_of table k = Some a \<Longrightarrow> a \<noteq> [] \<Longrightarrow>
     map_of (snd (shortenSequence (items :: 'a val list) table)) k = Some a"
  "map_of table k = Some a \<Longrightarrow> a \<noteq> [] \<Longrightarrow>
     map_of (snd (shortenRecord (entries :: (string \<times> 'a val) list) result table)) k = Some a"
proof (induction v table and items table and entries result table
    rule: shorten_shortenSequence_shortenRecord.induct)
  case (1 items table)
  then show ?case by (cases "shortenSequence items table") simp
next
  case (2 entries table)
  then show ?case by (cases "shortenRecord entries [] table") simp
next
  case (6 item items table)
  obtain item' table1 where a: "shorten item table = (item', table1)"
    by (cases "shorten item table")
  obtain items' table2 where b: "shortenSequence items table1 = (items', table2)"
    by (cases "shortenSequence items table1")
  from "6.IH"(1) [OF "6.prems"] a have "map_of table1 k = Some a" by simp
  with "6.IH"(2) [OF a [symmetric]] "6.prems"(2) b have "map_of table2 k = Some a" by simp
  with a b show ?case by simp
next
  case (8 key "value" entries result table)
  define table1 where "table1 = assignKey table key"
  define ali where "ali = propertyKey (getProp table1 key)"
  obtain value' table2 where a: "shorten value table1 = (value', table2)"
    by (cases "shorten value table1")
  have n1: "map_of table1 k = Some a"
    using "8.prems" by (simp add: table1_def assignKey_keeps)
  from "8.IH"(1) [OF table1_def ali_def n1 "8.prems"(2)] a
  have n2: "map_of table2 k = Some a" by simp
  from "8.IH"(2) [OF table1_def ali_def a [symmetric] n2 "8.prems"(2)]
  show ?case using a by (simp add: Let_def table1_def [symmetric] ali_def [symmetric])
qed simp_all

lemma shortenKeys_keeps:
  "map_of (initKeyMap keyMap) k = Some a \<Longrightarrow> a \<noteq> [] \<Longrightarrow>
     map_of (snd (shortenKeys v keyMap)) k = Some a"
  by (simp add: shortenKeys_shorten(1) shorten_keeps(1))

lemma map_of_nonempty: "map_of keyMap k = Some a \<Longrightarrow> keyMap \<noteq> []"
  by auto

lemma keyUses_kept:
  "map_of (initKeyMap keyMap) k = Some a \<Longrightarrow> a \<noteq> [] \<Longrightarrow>
     \<forall>e \<in> set (keyUses (v :: 'a val) keyMap). fst e = k \<longrightarrow> e = (k, False, a)"
  "map_of keyMap k = Some a \<Longrightarrow> a \<noteq> [] \<Longrightarrow>
     \<forall>e \<in> set (keyUsesItems (items :: 'a val list) keyMap). fst e = k \<longrightarrow> e = (k, False, a)"
  "map_of keyMap k = Some a \<Longrightarrow> a \<noteq> [] \<Longrightarrow>
     \<forall>e \<in> set (keyUsesEntries (entries :: (string \<times> 'a val) list) keyMap).
        fst e = k \<longrightarrow> e = (k, False, a)"
proof (induction v keyMap and items keyMap and entries keyMap
    rule: keyUses_keyUsesItems_keyUsesEntries.induct)
  case (6 item items keyMap)
  have i: "initKeyMap keyMap = keyMap"
    using "6.prems"(1) by (simp add: initKeyMap_nonempty map_of_nonempty)
  have a: "\<forall>e \<in> set (keyUses item keyMap). fst e = k \<longrightarrow> e = (k, False, a)"
    using "6.IH"(1) "6.prems" i by simp
  have "map_of (snd (shortenKeys item keyMap)) k = Some a"
    using shortenKeys_keeps [of keyMap k a item] "6.prems" i by simp
  with "6.IH"(2) "6.prems"(2)
  have b: "\<forall>e \<in> set (keyUsesItems items (snd (shortenKeys item keyMap))). fst e = k \<longrightarrow> e = (k, False, a)"
    by simp
  from a b show ?case by auto
next
  case (8 key "value" entries keyMap)
  define keyMap1 where "keyMap1 = assignKey keyMap key"
  have n1: "map_of keyMap1 k = Some a"
    using "8.prems" by (simp add: keyMap1_def assignKey_keeps)
  have i: "initKeyMap keyMap1 = keyMap1"
    using n1 by (simp add: initKeyMap_nonempty map_of_nonempty)
  have a: "\<forall>e \<in> set (keyUses value keyMap1). fst e = k \<longrightarrow> e = (k, False, a)"
    using "8.IH"(1) [OF keyMap1_def] n1 i "8.prems"(2) by simp
  have "map_of (snd (shortenKeys value keyMap1)) k = Some a"
    using shortenKeys_keeps [of keyMap1 k a "value"] n1 i "8.prems"(2) by simp
  with "8.IH"(2) [OF keyMap1_def] "8.prems"(2)
  have b: "\<forall>e \<in> set (keyUsesEntries entries (snd (shortenKeys value keyMap1))).
      fst e = k \<longrightarrow> e = (k, False, a)"
    by simp
  have c: "key = k \<Longrightarrow>
      (key, falsy (getProp keyMap key), propertyKey (getProp keyMap1 key)) = (k, False, a)"
    using "8.prems" n1 by (simp add: getProp_own)
  from a b c show ?case
    by (auto simp: Let_def keyMap1_def [symmetric])
qed simp_all

lemma COMMON_KEY_MAPPINGS_truthy: "map_of COMMON_KEY_MAPPINGS k = Some a \<Longrightarrow> a \<noteq> []"
proof -
  assume "map_of COMMON_KEY_MAPPINGS k = Some a"
  then have "(k, a) \<in> set COMMON_KEY_MAPPINGS" by (rule map_of_SomeD)
  moreover have "list_all (\<lambda>p. snd p \<noteq> []) COMMON_KEY_MAPPINGS"
    unfolding COMMON_KEY_MAPPINGS_eval by simp
  ultimately show ?thesis by (auto simp: list_all_iff)
qed

subsection \<open>What the walk writes for such a key\<close>

text \<open>
  \<open>result[alias] = v\<close> adds at most the property \<open>alias\<close> with the value \<open>v\<close>, keeps the
  names that are there, and adds the name \<open>alias\<close> unless it is \<open>__proto__\<close>.
\<close>

lemma setProp_set: "set (setProp obj k v) \<subseteq> insert (k, v) (set obj)"
proof (cases "k \<in> fst ` set obj")
  case True
  have "set (map (replaceValue k v) obj) \<subseteq> insert (k, v) (set obj)"
  proof
    fix e assume "e \<in> set (map (replaceValue k v) obj)"
    then obtain p where p: "p \<in> set obj" "e = replaceValue k v p" by auto
    obtain k' v' where "p = (k', v')" by (cases p)
    with p show "e \<in> insert (k, v) (set obj)" by (auto simp: replaceValue_pair)
  qed
  with True show ?thesis by (simp add: setProp_cases)
next
  case False
  then show ?thesis by (auto simp: setProp_cases insertIndexed_set split: option.splits)
qed

lemma resultSet_set: "set (resultSet result a v) \<subseteq> insert (a, v) (set result)"
  using setProp_set [of result a v] by (auto simp: resultSet_def)

lemma resultSet_keys:
  "fst ` set result \<subseteq> fst ` set (resultSet result a v)"
  using setProp_keys [of result a v] by (auto simp: resultSet_def Object_keys_set)

lemma resultSet_key:
  "a \<noteq> ''__proto__'' \<Longrightarrow> a \<in> fst ` set (resultSet result a v)"
  using setProp_keys [of result a v] by (auto simp: resultSet_def Object_keys_set)

text \<open>
  The state of the \<open>for\<close> loop of one object: \<open>result\<close> after the entries \<open>seen\<close>, as
  the premises of \<open>writtenUnder.ofRecord\<close> have it.
\<close>

definition writtenSoFar :: "string \<Rightarrow> string \<Rightarrow> (string \<times> 'a val) list \<Rightarrow> 'a val jsobject \<Rightarrow> bool" where
  "writtenSoFar key alias entries result =
     ((\<forall>out \<in> set result. \<exists>inp \<in> set entries.
        (fst inp = key \<longrightarrow> fst out = alias) \<and> writtenUnder key alias (snd inp) (snd out))
      \<and> (key \<in> fst ` set entries \<longrightarrow> alias \<in> fst ` set result))"

lemma writtenSoFar_step:
  assumes w: "writtenSoFar key alias seen result"
    and c: "writtenUnder key alias x x'"
    and a: "k = key \<longrightarrow> ali = alias"
    and p: "alias \<noteq> ''__proto__''"
  shows "writtenSoFar key alias (seen @ [(k, x)]) (resultSet result ali x')"
  unfolding writtenSoFar_def
proof (intro conjI ballI impI)
  fix out assume "out \<in> set (resultSet result ali x')"
  then have "out = (ali, x') \<or> out \<in> set result"
    using resultSet_set [of result ali x'] by auto
  then show "\<exists>inp \<in> set (seen @ [(k, x)]).
      (fst inp = key \<longrightarrow> fst out = alias) \<and> writtenUnder key alias (snd inp) (snd out)"
  proof
    assume "out = (ali, x')"
    with c a show ?thesis by auto
  next
    assume "out \<in> set result"
    with w obtain inp where "inp \<in> set seen"
      "(fst inp = key \<longrightarrow> fst out = alias) \<and> writtenUnder key alias (snd inp) (snd out)"
      unfolding writtenSoFar_def by blast
    then show ?thesis by auto
  qed
next
  assume k: "key \<in> fst ` set (seen @ [(k, x)])"
  show "alias \<in> fst ` set (resultSet result ali x')"
  proof (cases "k = key")
    case True
    with a have "ali = alias" by simp
    with p show ?thesis by (simp add: resultSet_key)
  next
    case False
    with k have "key \<in> fst ` set seen" by auto
    with w have "alias \<in> fst ` set result" unfolding writtenSoFar_def by simp
    then show ?thesis using resultSet_keys [of result ali x'] by auto
  qed
qed

lemma shorten_writtenUnder:
  "map_of table key = Some alias \<Longrightarrow> alias \<noteq> [] \<Longrightarrow> alias \<noteq> ''__proto__'' \<Longrightarrow>
     writtenUnder key alias (v :: 'a val) (fst (shorten v table))"
  "map_of table key = Some alias \<Longrightarrow> alias \<noteq> [] \<Longrightarrow> alias \<noteq> ''__proto__'' \<Longrightarrow>
     list_all2 (writtenUnder key alias) (items :: 'a val list) (fst (shortenSequence items table))"
  "map_of table key = Some alias \<Longrightarrow> alias \<noteq> [] \<Longrightarrow> alias \<noteq> ''__proto__'' \<Longrightarrow>
     (\<forall>seen. writtenSoFar key alias seen result \<longrightarrow>
        writtenSoFar key alias (seen @ (entries :: (string \<times> 'a val) list))
          (fst (shortenRecord entries result table)))"
proof (induction v table and items table and entries result table
    rule: shorten_shortenSequence_shortenRecord.induct)
  case (1 items table)
  then show ?case
    by (cases "shortenSequence items table") (auto intro: writtenUnder.ofSequence)
next
  case (2 entries table)
  have "writtenSoFar key alias [] ([] :: 'a val jsobject)" by (simp add: writtenSoFar_def)
  with "2.IH" [OF "2.prems"] have "writtenSoFar key alias entries (fst (shortenRecord entries [] table))"
    by fastforce
  then show ?case
    by (cases "shortenRecord entries [] table")
       (auto simp: writtenSoFar_def intro!: writtenUnder.ofRecord)
next
  case (3 table)
  show ?case by (simp add: writtenUnder.ofNull)
next
  case (4 x table)
  show ?case by (simp add: writtenUnder.ofScalar)
next
  case (5 table)
  show ?case by simp
next
  case (6 item items table)
  obtain item' table1 where a: "shorten item table = (item', table1)"
    by (cases "shorten item table")
  obtain items' table2 where b: "shortenSequence items table1 = (items', table2)"
    by (cases "shortenSequence items table1")
  have k1: "map_of table1 key = Some alias"
    using shorten_keeps(1) [OF "6.prems"(1,2), of item] a by simp
  from "6.IH"(1) [OF "6.prems"] a have "writtenUnder key alias item item'" by simp
  moreover from "6.IH"(2) [OF a [symmetric] k1 "6.prems"(2,3)] b
  have "list_all2 (writtenUnder key alias) items items'" by simp
  ultimately show ?case using a b by simp
next
  case (7 result table)
  show ?case by simp
next
  case (8 k x entries result table)
  define table1 where "table1 = assignKey table k"
  define ali where "ali = propertyKey (getProp table1 k)"
  obtain x' table2 where a: "shorten x table1 = (x', table2)"
    by (cases "shorten x table1")
  have k1: "map_of table1 key = Some alias"
    using "8.prems" by (simp add: table1_def assignKey_keeps)
  have k2: "map_of table2 key = Some alias"
    using shorten_keeps(1) [OF k1 "8.prems"(2), of x] a by simp
  have c: "writtenUnder key alias x x'"
    using "8.IH"(1) [OF table1_def ali_def k1 "8.prems"(2,3)] a by simp
  have al: "k = key \<longrightarrow> ali = alias"
    using k1 by (auto simp: ali_def getProp_own)
  have e: "fst (shortenRecord ((k, x) # entries) result table)
      = fst (shortenRecord entries (resultSet result ali x') table2)"
    using a by (simp add: Let_def table1_def [symmetric] ali_def [symmetric])
  show ?case
  proof (intro allI impI)
    fix seen assume w: "writtenSoFar key alias seen result"
    from writtenSoFar_step [OF w c al "8.prems"(3)]
    have "writtenSoFar key alias (seen @ [(k, x)]) (resultSet result ali x')" .
    with "8.IH"(2) [OF table1_def ali_def a [symmetric] k2 "8.prems"(2,3)]
    have "writtenSoFar key alias ((seen @ [(k, x)]) @ entries)
        (fst (shortenRecord entries (resultSet result ali x') table2))" by blast
    then show "writtenSoFar key alias (seen @ (k, x) # entries)
        (fst (shortenRecord ((k, x) # entries) result table))"
      unfolding e by simp
  qed
qed


lemma COMMON_KEY_MAPPINGS_not_proto:
  "map_of COMMON_KEY_MAPPINGS k = Some a \<Longrightarrow> a \<noteq> ''__proto__''"
proof -
  assume "map_of COMMON_KEY_MAPPINGS k = Some a"
  then have "(k, a) \<in> set COMMON_KEY_MAPPINGS" by (rule map_of_SomeD)
  moreover have "list_all (\<lambda>p. snd p \<noteq> ''__proto__'') COMMON_KEY_MAPPINGS"
    unfolding COMMON_KEY_MAPPINGS_eval by simp
  ultimately show ?thesis by (auto simp: list_all_iff)
qed

lemma setProp_first: "setProp [] k v = [(k, v)]"
  by (simp add: setProp_cases split: option.splits)

lemma shorten_single:
  assumes m: "map_of table key = Some a" and t: "a \<noteq> []" and p: "a \<noteq> ''__proto__''"
  shows "fst (shorten (Record [(key, v)]) table) = Record [(a, fst (shorten v table))]"
proof -
  have k: "assignKey table key = table" using m t by (rule assignKey_same)
  have g: "propertyKey (getProp table key) = a" using m by (simp add: getProp_own)
  obtain v' table2 where s: "shorten v table = (v', table2)" by (cases "shorten v table")
  show ?thesis using p by (simp add: k g s resultSet_def setProp_first)
qed

text \<open>
  Claim C4. A key of the predefined mappings, loaded into the empty key map before the
  walk, is never given a derived alias and its entry is never overwritten: its entry in
  the final key map is the predefined alias, and every entry of the input with that key
  is written under exactly that alias without the \<open>if (!keyMap[key])\<close> branch being
  taken. In the value \<open>shortenKeys\<close> returns the key appears under that alias only
  (\<open>writtenUnder\<close>, at every depth), and an object whose one entry has that key comes out
  as the object whose one property is that alias, holding the output of the entry's
  value.
\<close>

theorem seed_precedence:
  "map_of COMMON_KEY_MAPPINGS key = Some alias \<Longrightarrow>
     map_of (snd (shortenKeys v [])) key = Some alias
     \<and> (\<forall>e \<in> set (keyUses v []). fst e = key \<longrightarrow> e = (key, False, alias))
     \<and> writtenUnder key alias v (fst (shortenKeys v []))
     \<and> fst (shortenKeys (Record [(key, v)]) []) = Record [(alias, fst (shortenKeys v []))]"
proof -
  assume s: "map_of COMMON_KEY_MAPPINGS key = Some alias"
  then have t: "alias \<noteq> []" by (rule COMMON_KEY_MAPPINGS_truthy)
  from s have p: "alias \<noteq> ''__proto__''" by (rule COMMON_KEY_MAPPINGS_not_proto)
  from s have i: "map_of (initKeyMap []) key = Some alias" by (simp add: initKeyMap_empty)
  have a: "map_of (snd (shortenKeys v [])) key = Some alias"
    using shortenKeys_keeps [OF i t, of v] .
  have b: "\<forall>e \<in> set (keyUses v []). fst e = key \<longrightarrow> e = (key, False, alias)"
    using keyUses_kept(1) [OF i t, of v] .
  have c: "writtenUnder key alias v (fst (shortenKeys v []))"
    unfolding shortenKeys_empty using s t p by (rule shorten_writtenUnder(1))
  have d: "fst (shortenKeys (Record [(key, v)]) []) = Record [(alias, fst (shortenKeys v []))]"
    unfolding shortenKeys_empty using s t p by (rule shorten_single)
  from a b c d show ?thesis by blast
qed

theorem seed_precedence_witness:
  "map_of COMMON_KEY_MAPPINGS ''ModelName'' = Some ''mn''
   \<and> map_of (snd (shortenKeys (Sequence [Record [(''ModelName'', Scalar True), (''Model'', Null)],
         Record [(''ModelName'', Null)]]) [])) ''ModelName'' = Some ''mn''
   \<and> keyUses (Sequence [Record [(''ModelName'', Scalar True), (''Model'', Null)],
         Record [(''ModelName'', Null)]]) []
       = [(''ModelName'', False, ''mn''), (''Model'', True, ''mdl''), (''ModelName'', False, ''mn'')]
   \<and> fst (shortenKeys (Sequence [Record [(''ModelName'', Scalar True), (''Model'', Null)],
         Record [(''ModelName'', Null)]]) [])
       = Sequence [Record [(''mn'', Scalar True), (''mdl'', Null)], Record [(''mn'', Null)]]
   \<and> writtenUnder ''ModelName'' ''mn''
         (Sequence [Record [(''ModelName'', Scalar True), (''Model'', Null)],
            Record [(''ModelName'', Null)]])
         (Sequence [Record [(''mn'', Scalar True), (''mdl'', Null)], Record [(''mn'', Null)]])
   \<and> fst (shortenKeys (Record [(''ModelName'',
         Sequence [Record [(''ModelName'', Scalar True), (''Model'', Null)],
           Record [(''ModelName'', Null)]])]) [])
       = Record [(''mn'',
           Sequence [Record [(''mn'', Scalar True), (''mdl'', Null)], Record [(''mn'', Null)]])]
   \<and> \<not> writtenUnder ''ModelName'' ''mn''
         (Sequence [Record [(''ModelName'', Scalar True), (''Model'', Null)],
            Record [(''ModelName'', Null)]])
         (Sequence [Record [(''ModelName'', Scalar True), (''Model'', Null)],
            Record [(''ModelName'', Null)]])
   \<and> \<not> writtenUnder ''ModelName'' ''mn''
         (Sequence [Record [(''ModelName'', Scalar True), (''Model'', Null)],
            Record [(''ModelName'', Null)]])
         (Sequence [Record [], Record []])"
proof -
  have h: "map_of COMMON_KEY_MAPPINGS ''ModelName'' = Some ''mn''" by code_simp
  have u: "keyUses (Sequence [Record [(''ModelName'', Scalar True), (''Model'', Null)],
         Record [(''ModelName'', Null)]]) []
       = [(''ModelName'', False, ''mn''), (''Model'', True, ''mdl''), (''ModelName'', False, ''mn'')]"
    by code_simp
  have o: "fst (shortenKeys (Sequence [Record [(''ModelName'', Scalar True), (''Model'', Null)],
         Record [(''ModelName'', Null)]]) [])
       = Sequence [Record [(''mn'', Scalar True), (''mdl'', Null)], Record [(''mn'', Null)]]"
    by code_simp
  note t = seed_precedence [OF h,
      of "Sequence [Record [(''ModelName'', Scalar True), (''Model'', Null)],
         Record [(''ModelName'', Null)]]"]
  from t have a: "map_of (snd (shortenKeys (Sequence [Record [(''ModelName'', Scalar True),
         (''Model'', Null)], Record [(''ModelName'', Null)]]) [])) ''ModelName'' = Some ''mn''"
    by (rule conjunct1)
  from t have c: "writtenUnder ''ModelName'' ''mn''
         (Sequence [Record [(''ModelName'', Scalar True), (''Model'', Null)],
            Record [(''ModelName'', Null)]])
         (Sequence [Record [(''mn'', Scalar True), (''mdl'', Null)], Record [(''mn'', Null)]])"
    unfolding o by (elim conjE)
  from t have d: "fst (shortenKeys (Record [(''ModelName'',
         Sequence [Record [(''ModelName'', Scalar True), (''Model'', Null)],
           Record [(''ModelName'', Null)]])]) [])
       = Record [(''mn'',
           Sequence [Record [(''mn'', Scalar True), (''mdl'', Null)], Record [(''mn'', Null)]])]"
    unfolding o by (elim conjE)
  have x: "\<not> writtenUnder ''ModelName'' ''mn''
         (Sequence [Record [(''ModelName'', Scalar True), (''Model'', Null)],
            Record [(''ModelName'', Null)]])
         (Sequence [Record [(''ModelName'', Scalar True), (''Model'', Null)],
            Record [(''ModelName'', Null)]])"
    by code_simp
  have y: "\<not> writtenUnder ''ModelName'' ''mn''
         (Sequence [Record [(''ModelName'', Scalar True), (''Model'', Null)],
            Record [(''ModelName'', Null)]])
         (Sequence [Record [], Record []])"
    by code_simp
  from h a u o c d x y show ?thesis by (intro conjI)
qed

section \<open>Rules for running the walk on a given input\<close>

text \<open>One round of the collision loop, and a one-digit counter as a string.\<close>

lemma resolveCollision_free:
  "candidate \<notin> set vals \<Longrightarrow> resolveCollision vals short candidate counter = candidate"
  by (simp add: resolveCollision.simps)

lemma resolveCollision_taken:
  "candidate \<in> set vals \<Longrightarrow> resolveCollision vals short candidate counter
     = resolveCollision vals short (short @ decimal counter) (counter + 1)"
  by (subst resolveCollision.simps) simp

lemma decimal_digit: "n < 10 \<Longrightarrow> decimal n = [digitChar n]"
  by (subst decimal.simps) simp

lemmas walk_eval =
  assignKey_def getProp_def resultSet_def setProp_cases replaceValue_pair
  arrayIndex_nondigit isDigit_def Let_def Object_values_def Object_prototype_def
  nativeFunction_def deriveShort_def removeVowels_def toLowerCase_def lowerChar_def
  resolveCollision_free resolveCollision_taken decimal_digit digitChar_def

lemmas index_eval = arrayIndex_def parseDigits_def digitValue_def

section \<open>Totality\<close>











section \<open>The scenario of the specification\<close>

text \<open>A key that is new to the key map and collides with nothing is appended with its short form.\<close>

lemma assignKey_new:
  "key \<notin> set (Object_keys keyMap) \<Longrightarrow> map_of Object_prototype key = None \<Longrightarrow>
   arrayIndex key = None \<Longrightarrow> deriveShort key \<notin> set (Object_values keyMap) \<Longrightarrow>
   assignKey keyMap key = keyMap @ [(key, deriveShort key)]"
proof -
  assume a: "key \<notin> set (Object_keys keyMap)" and b: "map_of Object_prototype key = None"
    and c: "arrayIndex key = None" and d: "deriveShort key \<notin> set (Object_values keyMap)"
  from a have "map_of keyMap key = None"
    by (simp add: map_of_eq_None_iff Object_keys_set)
  with b have g: "getProp keyMap key = None" by (simp add: getProp_def)
  from d have r: "resolveCollision (Object_values keyMap) (deriveShort key) (deriveShort key) 1
      = deriveShort key" by (rule resolveCollision_free)
  from a c have s: "setProp keyMap key (deriveShort key) = keyMap @ [(key, deriveShort key)]"
    by (simp add: setProp_cases Object_keys_set)
  from g r s show ?thesis by (simp add: assignKey_def Let_def)
qed

lemma getProp_appended:
  "key \<notin> set (Object_keys keyMap) \<Longrightarrow> getProp (keyMap @ [(key, a)]) key = Some a"
proof -
  assume "key \<notin> set (Object_keys keyMap)"
  then have "map_of keyMap key = None" by (simp add: map_of_eq_None_iff Object_keys_set)
  then show ?thesis by (simp add: getProp_def map_add_def)
qed

text \<open>
  Claim C3, as the code has it. For the input \<open>{"LicenseValidator":"Started","ModelName":"prod"}\<close>:
  called with a key map that is not empty, holds neither key and has neither \<open>lcn\<close> nor
  \<open>mdl\<close> among its values, \<open>shortenKeys\<close> returns \<open>{"lcn":"Started","mdl":"prod"}\<close> and
  the key map extended by exactly \<open>LicenseValidator: lcn\<close> and \<open>ModelName: mdl\<close>; called with
  the empty key map, it loads the predefined mappings first and returns
  \<open>{"lv":"Started","mn":"prod"}\<close> with the key map equal to the predefined mappings.
\<close>

theorem license_scenario:
  assumes "keyMap \<noteq> []"
    and "''LicenseValidator'' \<notin> set (Object_keys keyMap)"
    and "''ModelName'' \<notin> set (Object_keys keyMap)"
    and "''lcn'' \<notin> set (Object_values keyMap)"
    and "''mdl'' \<notin> set (Object_values keyMap)"
  shows "shortenKeys (Record [(''LicenseValidator'', Scalar ''Started''),
                              (''ModelName'', Scalar ''prod'')]) keyMap
           = (Record [(''lcn'', Scalar ''Started''), (''mdl'', Scalar ''prod'')],
              keyMap @ [(''LicenseValidator'', ''lcn''), (''ModelName'', ''mdl'')])
         \<and> shortenKeys (Record [(''LicenseValidator'', Scalar ''Started''),
                                (''ModelName'', Scalar ''prod'')]) []
           = (Record [(''lv'', Scalar ''Started''), (''mn'', Scalar ''prod'')],
              COMMON_KEY_MAPPINGS)"
proof -
  define keyMap1 where "keyMap1 = keyMap @ [(''LicenseValidator'', ''lcn'')]"
  have d1: "deriveShort ''LicenseValidator'' = ''lcn''" by code_simp
  have d2: "deriveShort ''ModelName'' = ''mdl''" by code_simp
  have p1: "map_of Object_prototype ''LicenseValidator'' = None" by code_simp
  have p2: "map_of Object_prototype ''ModelName'' = None" by code_simp
  have i1: "arrayIndex ''LicenseValidator'' = None" by (simp add: arrayIndex_nondigit isDigit_def)
  have i2: "arrayIndex ''ModelName'' = None" by (simp add: arrayIndex_nondigit isDigit_def)
  have a1: "assignKey keyMap ''LicenseValidator'' = keyMap1"
    using assignKey_new [of "''LicenseValidator''" keyMap] assms p1 i1
    by (simp add: d1 keyMap1_def)
  have k2: "''ModelName'' \<notin> set (Object_keys keyMap1)"
    using assms by (simp add: keyMap1_def Object_keys_def)
  have v2: "''mdl'' \<notin> set (Object_values keyMap1)"
    using assms by (simp add: keyMap1_def Object_values_def)
  have a2: "assignKey keyMap1 ''ModelName'' = keyMap1 @ [(''ModelName'', ''mdl'')]"
    using assignKey_new [of "''ModelName''" keyMap1] k2 v2 p2 i2 by (simp add: d2)
  have g1: "getProp keyMap1 ''LicenseValidator'' = Some ''lcn''"
    unfolding keyMap1_def using assms(2) by (rule getProp_appended)
  have g2: "getProp (keyMap1 @ [(''ModelName'', ''mdl'')]) ''ModelName'' = Some ''mdl''"
    using k2 by (rule getProp_appended)
  have r1: "resultSet [] ''lcn'' (Scalar ''Started'') = [(''lcn'', Scalar ''Started'')]"
    by (simp add: resultSet_def setProp_cases arrayIndex_nondigit isDigit_def)
  have r2: "resultSet [(''lcn'', Scalar ''Started'')] ''mdl'' (Scalar ''prod'')
      = [(''lcn'', Scalar ''Started''), (''mdl'', Scalar ''prod'')]"
    by (simp add: resultSet_def setProp_cases arrayIndex_nondigit isDigit_def)
  have first: "shortenKeys (Record [(''LicenseValidator'', Scalar ''Started''),
                              (''ModelName'', Scalar ''prod'')]) keyMap
           = (Record [(''lcn'', Scalar ''Started''), (''mdl'', Scalar ''prod'')],
              keyMap @ [(''LicenseValidator'', ''lcn''), (''ModelName'', ''mdl'')])"
    unfolding shortenKeys_nonempty [OF assms(1)]
    by (simp add: a1 a2 g1 g2 r1 r2 Let_def) (simp add: keyMap1_def)
  have second: "shortenKeys (Record [(''LicenseValidator'', Scalar ''Started''),
                                (''ModelName'', Scalar ''prod'')]) []
           = (Record [(''lv'', Scalar ''Started''), (''mn'', Scalar ''prod'')],
              COMMON_KEY_MAPPINGS)"
    unfolding shortenKeys_empty by (simp add: COMMON_KEY_MAPPINGS_eval walk_eval)
  from first second show ?thesis by simp
qed

theorem license_scenario_witness:
  "[(''id'', ''k'')] \<noteq> []
   \<and> ''LicenseValidator'' \<notin> set (Object_keys [(''id'', ''k'')])
   \<and> ''ModelName'' \<notin> set (Object_keys [(''id'', ''k'')])
   \<and> ''lcn'' \<notin> set (Object_values [(''id'', ''k'')])
   \<and> ''mdl'' \<notin> set (Object_values [(''id'', ''k'')])
   \<and> shortenKeys (Record [(''LicenseValidator'', Scalar ''Started''),
                           (''ModelName'', Scalar ''prod'')]) [(''id'', ''k'')]
       = (Record [(''lcn'', Scalar ''Started''), (''mdl'', Scalar ''prod'')],
          [(''id'', ''k''), (''LicenseValidator'', ''lcn''), (''ModelName'', ''mdl'')])"
proof -
  have h1: "[(''id'', ''k'')] \<noteq> ([] :: string jsobject)" by simp
  have h2: "''LicenseValidator'' \<notin> set (Object_keys [(''id'', ''k'')])"
    by (simp add: Object_keys_def)
  have h3: "''ModelName'' \<notin> set (Object_keys [(''id'', ''k'')])" by (simp add: Object_keys_def)
  have h4: "''lcn'' \<notin> set (Object_values [(''id'', ''k'')])" by (simp add: Object_values_def)
  have h5: "''mdl'' \<notin> set (Object_values [(''id'', ''k'')])" by (simp add: Object_values_def)
  from license_scenario [OF h1 h2 h3 h4 h5] h1 h2 h3 h4 h5 show ?thesis by simp
qed

text \<open>
  Claim C3 as stated does not hold: with the empty key map the result is not
  \<open>{"lcn":"Started","mdl":"prod"}\<close> with the table \<open>{LicenseValidator: lcn, ModelName: mdl}\<close>.
\<close>

theorem license_scenario_counterexample:
  "shortenKeys (Record [(''LicenseValidator'', Scalar ''Started''),
                        (''ModelName'', Scalar ''prod'')]) []
     \<noteq> (Record [(''lcn'', Scalar ''Started''), (''mdl'', Scalar ''prod'')],
         [(''LicenseValidator'', ''lcn''), (''ModelName'', ''mdl'')])"
proof -
  have "shortenKeys (Record [(''LicenseValidator'', Scalar ''Started''),
                                (''ModelName'', Scalar ''prod'')]) []
           = (Record [(''lv'', Scalar ''Started''), (''mn'', Scalar ''prod'')],
              COMMON_KEY_MAPPINGS)"
    unfolding shortenKeys_empty by (simp add: COMMON_KEY_MAPPINGS_eval walk_eval)
  then show ?thesis by simp
qed

section \<open>Where the code departs from the specification\<close>

text \<open>
  Claim C1 (no two keys share an alias) against the code: the predefined mappings give the
  keys \<open>type\<close> and \<open>to\<close> the same alias \<open>t\<close>. With the default key map the two entries of
  \<open>{"type": x, "to": y}\<close> are written under the one property \<open>t\<close>, and the value of \<open>type\<close>
  is lost.
\<close>

theorem predefined_aliases_collide:
  "shortenKeys (Record [(''type'', Scalar x), (''to'', Scalar y)]) []
     = (Record [(''t'', Scalar y)], COMMON_KEY_MAPPINGS)
   \<and> map_of COMMON_KEY_MAPPINGS ''type'' = Some ''t''
   \<and> map_of COMMON_KEY_MAPPINGS ''to'' = Some ''t''"
  unfolding shortenKeys_empty
  by (simp add: COMMON_KEY_MAPPINGS_eval walk_eval)

text \<open>
  Claim C2 (every key that is not in the table gets a derived alias, which is recorded)
  against the code: \<open>constructor\<close> is not a key of the key map, but \<open>keyMap["constructor"]\<close>
  finds the inherited member of \<open>Object.prototype\<close>, which is truthy. No alias is derived
  (the derivation would give \<open>cns\<close>), nothing is recorded, and the entry is written under
  the string form of that member.
\<close>

theorem inherited_member_not_derived:
  "shortenKeys (Record [(''constructor'', Scalar x)]) []
     = (Record [(''function Object() { [native code] }'', Scalar x)], COMMON_KEY_MAPPINGS)
   \<and> map_of COMMON_KEY_MAPPINGS ''constructor'' = None
   \<and> deriveShort ''constructor'' = ''cns''"
  unfolding shortenKeys_empty
  by (simp add: COMMON_KEY_MAPPINGS_eval walk_eval)

text \<open>
  Claim C5 (a key that occurs twice gets the same alias both times) against the code: the
  empty key is given the empty alias at its first occurrence; at the second,
  \<open>!keyMap[key]\<close> holds again because the empty string is falsy, so an alias is derived
  anew, collides with the recorded one and becomes \<open>1\<close>.
\<close>

theorem empty_key_derived_twice:
  "shortenKeys (Sequence [Record [('''', Scalar x)], Record [('''', Scalar y)]]) []
     = (Sequence [Record [('''', Scalar x)], Record [(''1'', Scalar y)]],
        COMMON_KEY_MAPPINGS @ [('''', ''1'')])
   \<and> keyUses (Sequence [Record [('''', Scalar x)], Record [('''', Scalar y)]]) []
     = [('''', True, ''''), ('''', True, ''1'')]"
  by (simp add: shortenKeys_shorten(1) initKeyMap_empty initKeyMap_nonempty
      COMMON_KEY_MAPPINGS_eval walk_eval index_eval del: shortenKeys.simps)

text \<open>
  Claim C6 (the output has the shape of the input, entry for entry and in the same order)
  against the code: the predefined mappings give \<open>name\<close> and \<open>Name\<close> the same alias, so a
  record with both keys comes out with one entry; and the alias \<open>1\<close> of the key \<open>a1\<close> is an
  array index, so its entry is listed before the entry of \<open>b\<close> that was written first.
\<close>

theorem record_entries_merged_and_reordered:
  "fst (shortenKeys (Record [(''name'', Scalar x), (''Name'', Scalar y)]) [])
     = Record [(''n'', Scalar y)]
   \<and> fst (shortenKeys (Record [(''b'', Scalar x), (''a1'', Scalar y)]) [(''k'', ''v'')])
     = Record [(''1'', Scalar y), (''b'', Scalar x)]"
  by (simp add: shortenKeys_shorten(1) initKeyMap_empty initKeyMap_nonempty
      COMMON_KEY_MAPPINGS_eval walk_eval index_eval del: shortenKeys.simps)

text \<open>
  Claim C7 (the returned key map, read backwards, gives the original keys back) against
  the code: the inputs \<open>{"type": x}\<close> and \<open>{"to": x}\<close> produce the same output and the same
  key map, so neither the output nor the key map tells which key the input had.
\<close>

theorem alias_not_reversible:
  "shortenKeys (Record [(''type'', Scalar x)]) [] = (Record [(''t'', Scalar x)], COMMON_KEY_MAPPINGS)
   \<and> shortenKeys (Record [(''to'', Scalar x)]) [] = (Record [(''t'', Scalar x)], COMMON_KEY_MAPPINGS)"
  unfolding shortenKeys_empty
  by (simp add: COMMON_KEY_MAPPINGS_eval walk_eval)

section \<open>The walk on a store of objects\<close>

text \<open>
  In JavaScript an array or an object is a reference to a mutable cell. To say what a
  call leaves unchanged, the walk is written once more over a store: a list of cells,
  a reference being the position of its cell. A new object takes the next free position.
  The key map stays a component of its own, as the one object the walk shares with its
  caller and updates.
\<close>

datatype 'a jsval = JNull | JPrim 'a | JRef nat

datatype 'a jscell = JArray "'a jsval list" | JObject "'a jsval jsobject"

type_synonym 'a store = "'a jscell list"

text \<open>
  The two writes to an object under construction: the next element of the array that
  \<open>map\<close> fills, and \<open>result[alias] = v\<close>.
\<close>

definition pushItem :: "'a store \<Rightarrow> nat \<Rightarrow> 'a jsval \<Rightarrow> 'a store" where
  "pushItem store r v =
     (case store ! r of
        JArray items \<Rightarrow> store[r := JArray (items @ [v])]
      | JObject entries \<Rightarrow> store)"

definition writeProp :: "'a store \<Rightarrow> nat \<Rightarrow> string \<Rightarrow> 'a jsval \<Rightarrow> 'a store" where
  "writeProp store r alias v =
     (case store ! r of
        JObject result \<Rightarrow> store[r := JObject (resultSet result alias v)]
      | JArray items \<Rightarrow> store)"

text \<open>
  \<open>shortenKeys\<close> over the store. The first argument bounds the depth of the recursion,
  since a store may hold a cyclic structure, on which the source does not return;
  \<open>None\<close> is a walk that has not ended within the bound (or a reference to no cell).
  \<open>shortenItemsIn\<close> and \<open>shortenEntriesIn\<close> take the position \<open>r\<close> of the array, or of the
  \<open>result\<close> object, that the caller has created and they fill. The elements and entries
  of the input are those read when the loop starts.
\<close>

function shortenKeysIn ::
  "nat \<Rightarrow> 'a jsval \<Rightarrow> 'a store \<Rightarrow> string jsobject
     \<Rightarrow> ('a jsval \<times> 'a store \<times> string jsobject) option"
and shortenItemsIn ::
  "nat \<Rightarrow> 'a jsval list \<Rightarrow> nat \<Rightarrow> 'a store \<Rightarrow> string jsobject
     \<Rightarrow> ('a store \<times> string jsobject) option"
and shortenEntriesIn ::
  "nat \<Rightarrow> (string \<times> 'a jsval) list \<Rightarrow> nat \<Rightarrow> 'a store \<Rightarrow> string jsobject
     \<Rightarrow> ('a store \<times> string jsobject) option"
where
  "shortenKeysIn 0 obj store keyMap = None"
| "shortenKeysIn (Suc depth) (JRef a) store keyMap =
     (if a < length store
      then (case store ! a of
              JArray items \<Rightarrow>
                (case shortenItemsIn depth items (length store) (store @ [JArray []])
                        (initKeyMap keyMap) of
                   None \<Rightarrow> None
                 | Some (store', keyMap') \<Rightarrow> Some (JRef (length store), store', keyMap'))
            | JObject entries \<Rightarrow>
                (case shortenEntriesIn depth entries (length store) (store @ [JObject []])
                        (initKeyMap keyMap) of
                   None \<Rightarrow> None
                 | Some (store', keyMap') \<Rightarrow> Some (JRef (length store), store', keyMap')))
      else None)"
| "shortenKeysIn (Suc depth) JNull store keyMap = Some (JNull, store, initKeyMap keyMap)"
| "shortenKeysIn (Suc depth) (JPrim x) store keyMap = Some (JPrim x, store, initKeyMap keyMap)"
| "shortenItemsIn depth [] r store keyMap = Some (store, keyMap)"
| "shortenItemsIn depth (item # items) r store keyMap =
     (case shortenKeysIn depth item store keyMap of
        None \<Rightarrow> None
      | Some (item', store1, keyMap1) \<Rightarrow>
          shortenItemsIn depth items r (pushItem store1 r item') keyMap1)"
| "shortenEntriesIn depth [] r store keyMap = Some (store, keyMap)"
| "shortenEntriesIn depth ((key, value) # entries) r store keyMap =
     (let keyMap1 = assignKey keyMap key;
          alias = propertyKey (getProp keyMap1 key)
      in case shortenKeysIn depth value store keyMap1 of
           None \<Rightarrow> None
         | Some (value', store1, keyMap2) \<Rightarrow>
             shortenEntriesIn depth entries r (writeProp store1 r alias value') keyMap2)"
  by pat_completeness auto

definition walkMeasure ::
  "(nat \<times> 'a jsval \<times> 'a store \<times> string jsobject)
   + (nat \<times> 'a jsval list \<times> nat \<times> 'a store \<times> string jsobject)
   + (nat \<times> (string \<times> 'a jsval) list \<times> nat \<times> 'a store \<times> string jsobject)
   \<Rightarrow> nat \<times> nat" where
  "walkMeasure call =
     (case call of
        Inl (fuel, obj, rest) \<Rightarrow> (fuel, 0)
      | Inr (Inl (depth, items, rest)) \<Rightarrow> (depth, Suc (length items))
      | Inr (Inr (depth, entries, rest)) \<Rightarrow> (depth, Suc (length entries)))"

termination shortenKeysIn
  by (relation "inv_image (less_than <*lex*> less_than) walkMeasure")
     (auto simp: walkMeasure_def)

section \<open>What the walk writes\<close>

text \<open>
  A write goes to the object under construction and to no other cell; a call leaves
  every cell that existed when it began as it was, and adds cells.
\<close>

lemma pushItem_length: "length (pushItem store r v) = length store"
  by (simp add: pushItem_def split: jscell.splits)

lemma pushItem_other: "a \<noteq> r \<Longrightarrow> pushItem store r v ! a = store ! a"
  by (simp add: pushItem_def split: jscell.splits)

lemma writeProp_length: "length (writeProp store r alias v) = length store"
  by (simp add: writeProp_def split: jscell.splits)

lemma writeProp_other: "a \<noteq> r \<Longrightarrow> writeProp store r alias v ! a = store ! a"
  by (simp add: writeProp_def split: jscell.splits)

lemma store_frame:
  "shortenKeysIn fuel obj store keyMap = Some (obj', store', keyMap') \<Longrightarrow>
     length store \<le> length store' \<and> (\<forall>a < length store. store' ! a = store ! a)"
  "shortenItemsIn depth items r store keyMap = Some (store', keyMap') \<Longrightarrow>
     length store \<le> length store' \<and> (\<forall>a < length store. a \<noteq> r \<longrightarrow> store' ! a = store ! a)"
  "shortenEntriesIn depth entries r store keyMap = Some (store', keyMap') \<Longrightarrow>
     length store \<le> length store' \<and> (\<forall>a < length store. a \<noteq> r \<longrightarrow> store' ! a = store ! a)"
proof (induction fuel obj store keyMap and depth items r store keyMap
    and depth entries r store keyMap
    arbitrary: obj' store' keyMap' and store' keyMap' and store' keyMap'
    rule: shortenKeysIn_shortenItemsIn_shortenEntriesIn.induct)
  case (1 obj store keyMap)
  then show ?case by simp
next
  case (2 depth a store keyMap)
  from "2.prems" have a: "a < length store" by (simp split: if_splits)
  show ?case
  proof (cases "store ! a")
    case (JArray items)
    with "2.prems" a obtain s k where
      r: "shortenItemsIn depth items (length store) (store @ [JArray []]) (initKeyMap keyMap) = Some (s, k)"
      and e: "store' = s"
      by (auto split: option.splits)
    from "2.IH"(1) [OF a JArray r]
    have "length (store @ [JArray []]) \<le> length s"
      and "\<forall>b < length (store @ [JArray []]). b \<noteq> length store \<longrightarrow> s ! b = (store @ [JArray []]) ! b"
      by auto
    then show ?thesis unfolding e by (auto simp: nth_append)
  next
    case (JObject entries)
    with "2.prems" a obtain s k where
      r: "shortenEntriesIn depth entries (length store) (store @ [JObject []]) (initKeyMap keyMap) = Some (s, k)"
      and e: "store' = s"
      by (auto split: option.splits)
    from "2.IH"(2) [OF a JObject r]
    have "length (store @ [JObject []]) \<le> length s"
      and "\<forall>b < length (store @ [JObject []]). b \<noteq> length store \<longrightarrow> s ! b = (store @ [JObject []]) ! b"
      by auto
    then show ?thesis unfolding e by (auto simp: nth_append)
  qed
next
  case (3 depth store keyMap)
  then show ?case by simp
next
  case (4 depth x store keyMap)
  then show ?case by simp
next
  case (5 depth r store keyMap)
  then show ?case by simp
next
  case (6 depth item items r store keyMap)
  from "6.prems" obtain item' store1 keyMap1 where
    a: "shortenKeysIn depth item store keyMap = Some (item', store1, keyMap1)"
    and b: "shortenItemsIn depth items r (pushItem store1 r item') keyMap1 = Some (store', keyMap')"
    by (auto split: option.splits)
  from "6.IH"(1) [OF a] have f1: "length store \<le> length store1"
    "\<forall>a < length store. store1 ! a = store ! a" by auto
  from "6.IH"(2) [OF a refl refl b]
  have f2: "length (pushItem store1 r item') \<le> length store'"
    "\<forall>a < length (pushItem store1 r item'). a \<noteq> r \<longrightarrow> store' ! a = pushItem store1 r item' ! a"
    by auto
  from f1 f2 show ?case by (auto simp: pushItem_length pushItem_other)
next
  case (7 depth r store keyMap)
  then show ?case by simp
next
  case (8 depth key "value" entries r store keyMap)
  define keyMap1 where "keyMap1 = assignKey keyMap key"
  define ali where "ali = propertyKey (getProp keyMap1 key)"
  from "8.prems" obtain value' store1 keyMap2 where
    a: "shortenKeysIn depth value store keyMap1 = Some (value', store1, keyMap2)"
    and b: "shortenEntriesIn depth entries r (writeProp store1 r ali value') keyMap2 = Some (store', keyMap')"
    by (auto simp: Let_def keyMap1_def ali_def split: option.splits)
  from "8.IH"(1) [OF keyMap1_def ali_def a] have f1: "length store \<le> length store1"
    "\<forall>a < length store. store1 ! a = store ! a" by auto
  from "8.IH"(2) [OF keyMap1_def ali_def a refl refl b]
  have f2: "length (writeProp store1 r ali value') \<le> length store'"
    "\<forall>a < length (writeProp store1 r ali value'). a \<noteq> r \<longrightarrow> store' ! a = writeProp store1 r ali value' ! a"
    by auto
  from f1 f2 show ?case by (auto simp: writeProp_length writeProp_other)
qed

text \<open>
  Claim C8. \<open>shortenKeys\<close> does not mutate its input: when a call returns, every array
  and object that existed before the call, the whole input among them, is what it was
  before; the call only creates new objects and updates the key map passed with it.
\<close>

theorem shortenKeys_input_unchanged:
  "shortenKeysIn fuel obj store keyMap = Some (obj', store', keyMap') \<Longrightarrow>
     take (length store) store' = store"
proof -
  assume "shortenKeysIn fuel obj store keyMap = Some (obj', store', keyMap')"
  from store_frame(1) [OF this] show ?thesis
    by (auto simp: list_eq_iff_nth_eq)
qed

theorem shortenKeys_input_unchanged_witness:
  "shortenKeysIn 3 (JRef 0)
      [JObject [(''type'', JRef 1), (''id'', JPrim True)], JArray [JNull, JRef 0]] [(''k'', ''v'')]
     = None
   \<and> shortenKeysIn 3 (JRef 0)
      [JObject [(''type'', JRef 1), (''id'', JPrim True)], JArray [JNull, JPrim False]]
      [(''k'', ''v'')]
     = Some (JRef 2,
         [JObject [(''type'', JRef 1), (''id'', JPrim True)], JArray [JNull, JPrim False],
          JObject [(''typ'', JRef 3), (''d'', JPrim True)], JArray [JNull, JPrim False]],
         [(''k'', ''v''), (''type'', ''typ''), (''id'', ''d'')])
   \<and> take (length [JObject [(''type'', JRef 1), (''id'', JPrim True)], JArray [JNull, JPrim False]])
        [JObject [(''type'', JRef 1), (''id'', JPrim True)], JArray [JNull, JPrim False],
         JObject [(''typ'', JRef 3), (''d'', JPrim True)], JArray [JNull, JPrim False]]
     = [JObject [(''type'', JRef 1), (''id'', JPrim True)], JArray [JNull, JPrim False]]"
proof -
  have c: "shortenKeysIn 3 (JRef 0)
      [JObject [(''type'', JRef 1), (''id'', JPrim True)], JArray [JNull, JRef 0]] [(''k'', ''v'')]
     = None"
    by code_simp
  have r: "shortenKeysIn 3 (JRef 0)
      [JObject [(''type'', JRef 1), (''id'', JPrim True)], JArray [JNull, JPrim False]]
      [(''k'', ''v'')]
     = Some (JRef 2,
         [JObject [(''type'', JRef 1), (''id'', JPrim True)], JArray [JNull, JPrim False],
          JObject [(''typ'', JRef 3), (''d'', JPrim True)], JArray [JNull, JPrim False]],
         [(''k'', ''v''), (''type'', ''typ''), (''id'', ''d'')])"
    by code_simp
  from shortenKeys_input_unchanged [OF r] c r show ?thesis by blast
qed

end
